theory Spec2Isabelle
  imports Main
begin

section \<open>setSafeInterval: a periodic timer for asynchronous tasks\<close>

text \<open>
  The repository is one file, \<^verbatim>\<open>src/setSafeInterval.tsx\<close>: three React hooks.
  \<^item> \<^verbatim>\<open>_setSafeInterval(callback, timeout)\<close> keeps three refs (\<^verbatim>\<open>savedCallback\<close>,
    \<^verbatim>\<open>timeoutRef\<close>, \<^verbatim>\<open>unmountedRef\<close>) and two effects: one stores the callback, the other
    creates the interval and returns the cleanup.
  \<^item> \<^verbatim>\<open>_safeIntervalTrigger(asyncFunc, paused)\<close> keeps two pieces of state
    (\<^verbatim>\<open>intervalTrigger\<close>, \<^verbatim>\<open>ready\<close>) and two effects: one initialises \<^verbatim>\<open>ready\<close>, the other
    reacts to the trigger.
  \<^item> \<^verbatim>\<open>setSafeInterval(callback, timeout, paused)\<close> composes them: the timer's callback is
    \<^verbatim>\<open>() => { setIntervalTrigger(true) }\<close>.

  The embedding is a state machine over one record, the state of one mounted instance of
  the hook. The bodies of the effects, of the interval handler and of the promise
  callbacks are translated from the source. Around them stand two pieces of the host, written
  out so that the model runs: React's commit (an effect runs when its dependency array
  changed, a render follows every change of state) and the platform's timer table
  (\<^verbatim>\<open>setInterval\<close>, \<^verbatim>\<open>clearInterval\<close>, time in whole milliseconds).
  Every event is processed to quiescence before the next one is taken, which is the
  single-threaded model of section 5 of the specification.
\<close>

subsection \<open>Data\<close>

text \<open>What a call \<^verbatim>\<open>asyncFunc()\<close> does: it returns a promise, or it throws at once.\<close>

datatype call_outcome = Returns_promise | Throws

text \<open>How a promise settles.\<close>

datatype settlement = Fulfilled | Rejected

text \<open>
  The faults the hooks can run into: the task throwing inside the effect, and the
  interval handler calling \<^verbatim>\<open>savedCallback.current\<close> while it is still \<^verbatim>\<open>null\<close>.
\<close>

datatype error = Task_threw | Not_a_function

text \<open>The closure \<^verbatim>\<open>() => { setIntervalTrigger(b) }\<close> that the timer is given.\<close>

datatype tick_callback = Set_trigger bool

text \<open>The arguments of \<^verbatim>\<open>setSafeInterval(callback, timeout, paused)\<close> at one render.\<close>

record props =
  callback :: call_outcome
  timeout :: nat
  paused :: bool

text \<open>
  One instance of the hook.  \<open>ready = None\<close> is \<^verbatim>\<open>undefined\<close>; \<open>timeoutRef = None\<close> and
  \<open>savedCallback = None\<close> are \<^verbatim>\<open>null\<close>.  \<open>trigger_deps\<close> and \<open>timeout_deps\<close> are the
  dependency arrays \<^verbatim>\<open>[intervalTrigger, paused]\<close> and \<^verbatim>\<open>[timeout]\<close> of the last commit.
  \<open>timers\<close> is the platform's table of live intervals: handle, period, milliseconds to
  the next firing.  \<open>invocations\<close> counts the calls of \<^verbatim>\<open>asyncFunc\<close>, \<open>in_flight\<close> the
  promises not settled yet, \<open>on_ticks\<close> the calls of the saved callback.
\<close>

record hook =
  intervalTrigger :: bool
  ready :: "bool option"
  savedCallback :: "tick_callback option"
  timeoutRef :: "nat option"
  unmountedRef :: bool
  trigger_deps :: "bool \<times> bool"
  timeout_deps :: nat
  cur_props :: props
  mounted :: bool
  timers :: "(nat \<times> nat \<times> nat) list"
  next_handle :: nat
  invocations :: nat
  in_flight :: nat
  on_ticks :: nat

datatype event =
    Tick                 \<comment> \<open>the platform runs the interval handler once\<close>
  | Elapse_ms            \<comment> \<open>one millisecond passes; the intervals that are due fire\<close>
  | Settle settlement    \<comment> \<open>the promise of the task in flight settles\<close>
  | Render props         \<comment> \<open>the owner renders again, with these arguments\<close>
  | Unmount              \<comment> \<open>the owning component is unmounted\<close>

definition and_then :: "error + 'a \<Rightarrow> ('a \<Rightarrow> error + 'b) \<Rightarrow> error + 'b" where
  "and_then r f = (case r of Inl e \<Rightarrow> Inl e | Inr x \<Rightarrow> f x)"

subsection \<open>The platform's timers\<close>

text \<open>
  The platform keeps the delay of a timer in whole milliseconds from 1 to \<open>2^31 - 1\<close>.  A
  delay outside that range (0, or \<open>2^31\<close> and more) is replaced by 1 millisecond, as Node's
  timers do.  \<open>timeout\<close> is a natural number, so a delay with a fraction, which the platform
  cuts down to whole milliseconds, is not among the arguments of the model.
\<close>

definition TIMEOUT_MAX :: nat where
  "TIMEOUT_MAX = 2147483647"

definition delay_of :: "nat \<Rightarrow> nat" where
  "delay_of period = (if 1 \<le> period \<and> period \<le> TIMEOUT_MAX then period else 1)"

text \<open>
  \<^verbatim>\<open>setInterval(handler, period)\<close> registers a new interval with the delay the platform
  makes of \<open>period\<close>, whose first firing is one full delay away, and returns its handle.
  \<^verbatim>\<open>clearInterval(h)\<close> removes the interval \<open>h\<close>, and does nothing when there is none.
\<close>

definition setInterval :: "nat \<Rightarrow> hook \<Rightarrow> nat \<times> hook" where
  "setInterval period s =
     (next_handle s,
      s\<lparr>timers := timers s @ [(next_handle s, delay_of period, delay_of period)],
        next_handle := Suc (next_handle s)\<rparr>)"

definition clearInterval :: "nat \<Rightarrow> hook \<Rightarrow> hook" where
  "clearInterval h s = s\<lparr>timers := filter (\<lambda>t. fst t \<noteq> h) (timers s)\<rparr>"

text \<open>One millisecond on one interval: it fires when its time is up, and starts over.\<close>

definition is_due :: "nat \<times> nat \<times> nat \<Rightarrow> bool" where
  "is_due t = (snd (snd t) \<le> 1)"

definition advance_timer :: "nat \<times> nat \<times> nat \<Rightarrow> nat \<times> nat \<times> nat" where
  "advance_timer t =
     (if is_due t then (fst t, fst (snd t), fst (snd t))
      else (fst t, fst (snd t), snd (snd t) - 1))"

subsection \<open>The state setters\<close>

definition setIntervalTrigger :: "bool \<Rightarrow> hook \<Rightarrow> hook" where
  "setIntervalTrigger b s = s\<lparr>intervalTrigger := b\<rparr>"

definition setReady :: "bool \<Rightarrow> hook \<Rightarrow> hook" where
  "setReady b s = s\<lparr>ready := Some b\<rparr>"

subsection \<open>The hook \<^verbatim>\<open>_safeIntervalTrigger\<close>\<close>

text \<open>
  The first effect (dependencies \<^verbatim>\<open>[]\<close>, so it runs at mount only):
  \<^verbatim>\<open>if (ready === undefined) { setReady(() => ready = true) }\<close>.
  The argument is the value of \<^verbatim>\<open>ready\<close> in the render the effect belongs to.
\<close>

definition init_ready_effect :: "bool option \<Rightarrow> hook \<Rightarrow> hook" where
  "init_ready_effect rdy s = (if rdy = None then setReady True s else s)"

text \<open>
  What \<^verbatim>\<open>setReady\<close> is given there is an updater, \<^verbatim>\<open>() => ready = true\<close>, and its body assigns
  the variable \<^verbatim>\<open>ready\<close> of the render.  When this effect runs the hook has no update
  pending, so React calls the updater at once, inside \<^verbatim>\<open>setReady\<close>.  The second effect of the
  same render closes over the same variable: what it reads in \<^verbatim>\<open>if (ready)\<close> is the value after
  the assignment.
\<close>

definition ready_after_init :: "bool option \<Rightarrow> bool option" where
  "ready_after_init rdy = (if rdy = None then Some True else rdy)"

text \<open>
  The second effect (dependencies \<^verbatim>\<open>[intervalTrigger, paused]\<close>).  \<open>trig\<close> and \<open>rdy\<close> are the
  values of \<^verbatim>\<open>intervalTrigger\<close> and \<^verbatim>\<open>ready\<close> in the render the effect belongs to; \<open>pr\<close> holds
  \<^verbatim>\<open>asyncFunc\<close> and \<^verbatim>\<open>paused\<close> of that render.  \<^verbatim>\<open>if (ready)\<close> is false for \<^verbatim>\<open>undefined\<close> and for
  \<^verbatim>\<open>false\<close>.  The two setters are called before \<^verbatim>\<open>asyncFunc()\<close>; a task that throws leaves
  the effect with the exception.  The updaters given to the setters assign the variables
  \<^verbatim>\<open>intervalTrigger\<close> and \<^verbatim>\<open>ready\<close> only after the effect has read them.
\<close>

definition trigger_effect :: "props \<Rightarrow> bool \<Rightarrow> bool option \<Rightarrow> hook \<Rightarrow> error + hook" where
  "trigger_effect pr trig rdy s =
     (if \<not> paused pr then
        if trig then
          let s1 = setIntervalTrigger False s in
          if rdy = Some True then
            let s2 = setReady False s1 in
            (case callback pr of
               Throws \<Rightarrow> Inl Task_threw
             | Returns_promise \<Rightarrow>
                 Inr (s2\<lparr>invocations := Suc (invocations s2), in_flight := Suc (in_flight s2)\<rparr>))
          else Inr s1
        else Inr s
      else Inr s)"

text \<open>
  The promise chain \<^verbatim>\<open>.then(() => { setReady(true) }).catch((errors) => { setReady(true) })\<close>:
  a fulfilled promise runs the first callback, a rejected one the second.
\<close>

definition task_settled :: "settlement \<Rightarrow> hook \<Rightarrow> hook" where
  "task_settled r s = (case r of Fulfilled \<Rightarrow> setReady True s | Rejected \<Rightarrow> setReady True s)"

subsection \<open>The hook \<^verbatim>\<open>_setSafeInterval\<close>\<close>

text \<open>
  The first effect, \<^verbatim>\<open>savedCallback.current = callback\<close>.  Its dependency array
  \<^verbatim>\<open>[savedCallback.current]\<close> holds the closure of the render before, which is never the
  closure of this render, so the effect runs at every commit.
\<close>

definition save_callback_effect :: "tick_callback \<Rightarrow> hook \<Rightarrow> hook" where
  "save_callback_effect cb s = s\<lparr>savedCallback := Some cb\<rparr>"

text \<open>
  The handler given to \<^verbatim>\<open>setInterval\<close>:
  \<^verbatim>\<open>if (!unmountedRef.current) { savedCallback.current() }\<close>.
\<close>

definition run_callback :: "tick_callback \<Rightarrow> hook \<Rightarrow> hook" where
  "run_callback cb s = (case cb of Set_trigger b \<Rightarrow> setIntervalTrigger b s)"

definition interval_handler :: "hook \<Rightarrow> error + hook" where
  "interval_handler s =
     (if \<not> unmountedRef s then
        (case savedCallback s of
           None \<Rightarrow> Inl Not_a_function
         | Some cb \<Rightarrow> Inr (run_callback cb (s\<lparr>on_ticks := Suc (on_ticks s)\<rparr>)))
      else Inr s)"

text \<open>
  The second effect (dependencies \<^verbatim>\<open>[timeout]\<close>): the interval is created when
  \<^verbatim>\<open>timeoutRef.current === null\<close>.
\<close>

definition timer_effect :: "props \<Rightarrow> hook \<Rightarrow> hook" where
  "timer_effect pr s =
     (if timeoutRef s = None then
        (case setInterval (timeout pr) s of (h, s') \<Rightarrow> s'\<lparr>timeoutRef := Some h\<rparr>)
      else s)"

text \<open>
  Its cleanup: \<^verbatim>\<open>unmountedRef.current = true\<close>, then
  \<^verbatim>\<open>if (timeoutRef.current !== null) { clearInterval(timeoutRef.current) }\<close>.
  \<^verbatim>\<open>timeoutRef.current\<close> keeps its value.
\<close>

definition timer_cleanup :: "hook \<Rightarrow> hook" where
  "timer_cleanup s =
     (let s1 = s\<lparr>unmountedRef := True\<rparr> in
      case timeoutRef s1 of None \<Rightarrow> s1 | Some h \<Rightarrow> clearInterval h s1)"

subsection \<open>Commit, render loop, mount and unmount\<close>

text \<open>
  One render after the first, and its commit.  React runs the cleanups of the effects whose
  dependencies changed, then the effects themselves in the order of the hooks:
  \<^verbatim>\<open>setSafeInterval\<close> calls \<^verbatim>\<open>_safeIntervalTrigger(callback, paused)\<close> first and
  \<^verbatim>\<open>_setSafeInterval(() => { setIntervalTrigger(true) }, timeout)\<close> second, so the callback that
  is saved is \<open>Set_trigger True\<close>.
  The effects see the state of the render, not what the commit has written since.
\<close>

definition commit :: "hook \<Rightarrow> error + hook" where
  "commit s =
     (let pr = cur_props s; trig = intervalTrigger s; rdy = ready s;
          s1 = (if timeout pr \<noteq> timeout_deps s then timer_cleanup s else s)
      in case (if (trig, paused pr) \<noteq> trigger_deps s then trigger_effect pr trig rdy s1
               else Inr s1) of
           Inl e \<Rightarrow> Inl e
         | Inr s2 \<Rightarrow>
             let s3 = save_callback_effect (Set_trigger True) s2;
                 s4 = (if timeout pr \<noteq> timeout_deps s then timer_effect pr s3 else s3)
             in Inr (s4\<lparr>trigger_deps := (trig, paused pr), timeout_deps := timeout pr\<rparr>))"

text \<open>
  A change of state asks for another render: React renders and commits until the commit
  changes no state.  An instance that is not mounted is never rendered.
\<close>

function flush :: "hook \<Rightarrow> error + hook" where
  "flush s =
     (if \<not> mounted s then Inr s
      else case commit s of
             Inl e \<Rightarrow> Inl e
           | Inr s' \<Rightarrow>
               if intervalTrigger s' = intervalTrigger s \<and> ready s' = ready s then Inr s'
               else flush s')"
  by pat_completeness auto

termination
proof (relation "measure (\<lambda>s. if intervalTrigger s \<and> \<not> paused (cur_props s) then 1 else 0)")
  show "wf (measure (\<lambda>s. if intervalTrigger s \<and> \<not> paused (cur_props s) then 1 else 0))"
    by simp
next
  fix s s'
  assume "commit s = Inr s'"
    and "\<not> (intervalTrigger s' = intervalTrigger s \<and> ready s' = ready s)"
  then have "intervalTrigger s \<and> \<not> paused (cur_props s) \<and> \<not> intervalTrigger s'
      \<and> cur_props s' = cur_props s"
    by (auto simp: commit_def Let_def trigger_effect_def timer_cleanup_def timer_effect_def
        clearInterval_def setInterval_def save_callback_effect_def setIntervalTrigger_def
        setReady_def split: if_splits sum.splits call_outcome.splits option.splits)
  then show "(s', s) \<in> measure (\<lambda>s. if intervalTrigger s \<and> \<not> paused (cur_props s) then 1 else 0)"
    by simp
qed

declare flush.simps [simp del]

text \<open>The state of the first render: the initial values of \<^verbatim>\<open>useState\<close> and \<^verbatim>\<open>useRef\<close>.\<close>

definition initial :: "props \<Rightarrow> hook" where
  "initial pr =
     \<lparr>intervalTrigger = False, ready = None, savedCallback = None, timeoutRef = None,
      unmountedRef = False, trigger_deps = (False, paused pr), timeout_deps = timeout pr,
      cur_props = pr, mounted = True, timers = [], next_handle = 0, invocations = 0,
      in_flight = 0, on_ticks = 0\<rparr>"

text \<open>
  The commit of the first render, whose state is \<open>s0\<close>: every effect runs, in the order of
  the hooks.  It is the one commit in which the state \<^verbatim>\<open>ready\<close> is \<^verbatim>\<open>undefined\<close>; the trigger
  effect reads the variable as the first effect has left it.
\<close>

definition first_commit :: "props \<Rightarrow> hook \<Rightarrow> error + hook" where
  "first_commit pr s0 =
     (let trig = intervalTrigger s0; rdy = ready s0;
          s1 = init_ready_effect rdy s0
      in case trigger_effect pr trig (ready_after_init rdy) s1 of
           Inl e \<Rightarrow> Inl e
         | Inr s2 \<Rightarrow>
             let s3 = save_callback_effect (Set_trigger True) s2;
                 s4 = timer_effect pr s3
             in Inr (s4\<lparr>trigger_deps := (trig, paused pr), timeout_deps := timeout pr\<rparr>))"

text \<open>Mounting: the first render, its commit, and the renders after.\<close>

definition mount :: "props \<Rightarrow> error + hook" where
  "mount pr = and_then (first_commit pr (initial pr)) flush"

text \<open>Unmounting runs the one cleanup there is.\<close>

definition unmount :: "hook \<Rightarrow> hook" where
  "unmount s = (timer_cleanup s)\<lparr>mounted := False\<rparr>"

subsection \<open>Events\<close>

text \<open>
  What happens to a hook between mount and the end of its life.
  \<^item> \<open>Tick\<close>: the platform runs the handler of the interval once.  No time is attached to
    it, so it stands for any firing, also for one that was dispatched before the interval
    was cleared and is delivered after.
  \<^item> \<open>Elapse_ms\<close>: one millisecond passes on the platform's clock, and every interval
    whose time is up fires.
  \<^item> \<open>Settle\<close>: the promise that the task returned settles, and the callback of the
    promise chain runs.  Without a promise in flight there is nothing to settle.
  \<^item> \<open>Render\<close>: the owner renders the hook again, with arguments that may differ in
    \<^verbatim>\<open>callback\<close>, \<^verbatim>\<open>timeout\<close> and \<^verbatim>\<open>paused\<close>.
  \<^item> \<open>Unmount\<close>: the owning component is unmounted, once.
  After each event React renders until the state is settled.  The setters called on an
  unmounted instance write a state that is never rendered again.
\<close>

definition tick :: "hook \<Rightarrow> error + hook" where
  "tick s = and_then (interval_handler s) flush"

fun deliver :: "nat \<Rightarrow> hook \<Rightarrow> error + hook" where
  "deliver 0 s = Inr s"
| "deliver (Suc n) s = and_then (tick s) (deliver n)"

fun step :: "event \<Rightarrow> hook \<Rightarrow> error + hook" where
  "step Tick s = tick s"
| "step Elapse_ms s =
     deliver (length (filter is_due (timers s))) (s\<lparr>timers := map advance_timer (timers s)\<rparr>)"
| "step (Settle r) s =
     (if in_flight s = 0 then Inr s
      else flush (task_settled r (s\<lparr>in_flight := in_flight s - 1\<rparr>)))"
| "step (Render pr) s = (if mounted s then flush (s\<lparr>cur_props := pr\<rparr>) else Inr s)"
| "step Unmount s = Inr (if mounted s then unmount s else s)"

fun run :: "event list \<Rightarrow> hook \<Rightarrow> error + hook" where
  "run [] s = Inr s"
| "run (ev # evs) s = and_then (step ev s) (run evs)"

text \<open>A whole life of the hook: mounted with \<open>pr\<close>, then the events in order.\<close>

definition run_from_mount :: "props \<Rightarrow> event list \<Rightarrow> error + hook" where
  "run_from_mount pr evs = and_then (mount pr) (run evs)"

subsection \<open>Observations and the invariant\<close>

text \<open>What holds of the state a run ends in; a run that ended in an error satisfies nothing.\<close>

definition holds_after :: "error + hook \<Rightarrow> (hook \<Rightarrow> bool) \<Rightarrow> bool" where
  "holds_after r P = (case r of Inl e \<Rightarrow> False | Inr s \<Rightarrow> P s)"

text \<open>The number of calls of the task that a run has made.\<close>

definition total_invocations :: "error + hook \<Rightarrow> nat option" where
  "total_invocations r = (case r of Inl e \<Rightarrow> None | Inr s \<Rightarrow> Some (invocations s))"

text \<open>The number of calls of the saved callback that a run has made.\<close>

definition total_ticks :: "error + hook \<Rightarrow> nat option" where
  "total_ticks r = (case r of Inl e \<Rightarrow> None | Inr s \<Rightarrow> Some (on_ticks s))"

text \<open>Arguments for the examples: a task that returns a promise, every second.\<close>

definition P1000 :: props where
  "P1000 = \<lparr>callback = Returns_promise, timeout = 1000, paused = False\<rparr>"

text \<open>
  The states between two events.  The dependency arrays are those of the current state; the
  trigger is set only while paused; \<open>ready\<close> is initialised, and false exactly while a
  promise is pending; the interval was created once, and it is the one live interval
  unless the cleanup has run.
\<close>

definition quiescent :: "hook \<Rightarrow> bool" where
  "quiescent s =
     (trigger_deps s = (intervalTrigger s, paused (cur_props s)) \<and>
      timeout_deps s = timeout (cur_props s) \<and>
      (paused (cur_props s) \<or> \<not> intervalTrigger s) \<and>
      savedCallback s = Some (Set_trigger True) \<and>
      ready s = Some (in_flight s = 0) \<and> in_flight s \<le> 1 \<and>
      timeoutRef s \<noteq> None \<and>
      map (\<lambda>t. Some (fst t)) (timers s) = (if unmountedRef s then [] else [timeoutRef s]) \<and>
      (mounted s \<or> unmountedRef s))"

text \<open>
  The state right after the commit of a render with the arguments \<open>pr\<close>, before the
  trigger effect has had its say: a changed \<open>timeout\<close> has run the cleanup.
\<close>

definition rendered :: "props \<Rightarrow> hook \<Rightarrow> hook" where
  "rendered pr s =
     (if timeout pr \<noteq> timeout (cur_props s) then s\<lparr>unmountedRef := True, timers := []\<rparr> else s)
       \<lparr>cur_props := pr, timeout_deps := timeout pr,
        trigger_deps := (intervalTrigger s, paused pr)\<rparr>"

text \<open>The milliseconds that pass in a list of events.\<close>

definition elapsed_ms :: "event list \<Rightarrow> nat" where
  "elapsed_ms evs = length (filter (\<lambda>ev. ev = Elapse_ms) evs)"

text \<open>
  The invariant of a clock that has run for \<open>t\<close> milliseconds with the period \<open>p\<close>, and has
  not been stopped: the one interval is \<open>t mod p\<close> into its period, and the saved callback
  has been called \<open>t div p\<close> times.
\<close>

definition on_schedule :: "nat \<Rightarrow> nat \<Rightarrow> hook \<Rightarrow> bool" where
  "on_schedule p t s =
     (quiescent s \<and> \<not> unmountedRef s \<and> callback (cur_props s) = Returns_promise \<and>
      map (\<lambda>t. snd t) (timers s) = [(p, p - t mod p)] \<and> on_ticks s = t div p)"

section \<open>The render loop and the invariant\<close>

lemmas effect_defs = commit_def Let_def trigger_effect_def timer_cleanup_def timer_effect_def
      clearInterval_def setInterval_def save_callback_effect_def setIntervalTrigger_def
      setReady_def

lemma commit_idle:
  assumes "\<not> intervalTrigger s"
  shows "\<exists>s'. commit s = Inr s' \<and> \<not> intervalTrigger s' \<and> ready s' = ready s \<and> mounted s' = mounted s"
  using assms by (auto simp: effect_defs split: option.splits)

lemma commit_mounted: "commit s = Inr s' \<Longrightarrow> mounted s' = mounted s"
  by (auto simp: effect_defs split: if_splits call_outcome.splits option.splits)

lemma commit_changes:
  assumes "commit s = Inr s'"
    and "\<not> (intervalTrigger s' = intervalTrigger s \<and> ready s' = ready s)"
  shows "\<not> intervalTrigger s'"
  using assms
  by (auto simp: effect_defs split: if_splits sum.splits call_outcome.splits option.splits)

lemma flush_idle:
  assumes "\<not> intervalTrigger s" "mounted s"
  shows "flush s = commit s"
proof -
  from commit_idle [OF assms(1)] obtain s' where
    "commit s = Inr s'" "\<not> intervalTrigger s'" "ready s' = ready s" by blast
  with assms show ?thesis by (subst flush.simps) simp
qed

lemma flush_two:
  "flush s =
     (if \<not> mounted s then Inr s
      else case commit s of
             Inl e \<Rightarrow> Inl e
           | Inr s' \<Rightarrow>
               if intervalTrigger s' = intervalTrigger s \<and> ready s' = ready s then Inr s'
               else commit s')"
proof (cases "mounted s")
  case False
  then show ?thesis by (subst flush.simps) simp
next
  case True
  show ?thesis
  proof (cases "commit s")
    case (Inl e)
    with True show ?thesis by (subst flush.simps) simp
  next
    case (Inr s')
    show ?thesis
    proof (cases "intervalTrigger s' = intervalTrigger s \<and> ready s' = ready s")
      case same: True
      with True Inr show ?thesis by (subst flush.simps) simp
    next
      case False
      from commit_changes [OF Inr False] commit_mounted [OF Inr] True
      have "flush s' = commit s'" by (simp add: flush_idle)
      with True Inr False show ?thesis by (subst flush.simps) auto
    qed
  qed
qed

lemma quiescentD:
  assumes "quiescent s"
  shows "trigger_deps s = (intervalTrigger s, paused (cur_props s))"
    and "timeout_deps s = timeout (cur_props s)"
    and "paused (cur_props s) \<or> \<not> intervalTrigger s"
    and "savedCallback s = Some (Set_trigger True)"
    and "ready s = Some (in_flight s = 0)"
    and "in_flight s \<le> 1"
    and "unmountedRef s \<Longrightarrow> timers s = []"
    and "map (\<lambda>t. Some (fst t)) (timers s) = (if unmountedRef s then [] else [timeoutRef s])"
    and "\<not> unmountedRef s \<Longrightarrow> mounted s"
    and "timeoutRef s \<noteq> None"
  using assms by (auto simp: quiescent_def split: if_splits option.splits)

lemma mount_quiescent: "mount pr = Inr s \<Longrightarrow> quiescent s"
  by (auto simp: mount_def first_commit_def and_then_def initial_def init_ready_effect_def
      flush_two effect_defs quiescent_def
      split: if_splits)

lemma commit_quiet:
  assumes "trigger_deps s = (intervalTrigger s, paused (cur_props s))"
    and "timeout_deps s = timeout (cur_props s)"
    and "savedCallback s = Some (Set_trigger True)"
  shows "commit s = Inr s"
  using assms by (cases s) (simp add: commit_def Let_def save_callback_effect_def)

lemma flush_quiet:
  assumes "trigger_deps s = (intervalTrigger s, paused (cur_props s))"
    and "timeout_deps s = timeout (cur_props s)"
    and "savedCallback s = Some (Set_trigger True)"
  shows "flush s = Inr s"
  using commit_quiet [OF assms] by (simp add: flush_two)

lemma flush_quiescent: "quiescent s \<Longrightarrow> flush s = Inr s"
  by (rule flush_quiet) (simp_all add: quiescent_def)

lemma tick_cases:
  assumes "quiescent s"
  shows "tick s =
     (if unmountedRef s then Inr s
      else if paused (cur_props s) then
        Inr (s\<lparr>intervalTrigger := True, trigger_deps := (True, True), on_ticks := Suc (on_ticks s)\<rparr>)
      else if ready s = Some True then
        (case callback (cur_props s) of
           Throws \<Rightarrow> Inl Task_threw
         | Returns_promise \<Rightarrow>
             Inr (s\<lparr>ready := Some False, invocations := Suc (invocations s),
                   in_flight := Suc (in_flight s), on_ticks := Suc (on_ticks s)\<rparr>))
      else Inr (s\<lparr>on_ticks := Suc (on_ticks s)\<rparr>))"
proof (cases "unmountedRef s")
  case True
  with flush_quiescent [OF assms] show ?thesis
    by (simp add: tick_def interval_handler_def and_then_def)
next
  case False
  with quiescentD [OF assms]
  have m: "mounted s" and cb: "savedCallback s = Some (Set_trigger True)"
    and deps: "trigger_deps s = (intervalTrigger s, paused (cur_props s))"
      "timeout_deps s = timeout (cur_props s)"
    and tr: "paused (cur_props s) \<or> \<not> intervalTrigger s"
    by simp_all
  show ?thesis
  proof (cases "paused (cur_props s)")
    case True
    with False m cb deps show ?thesis
      by (cases s) (simp add: tick_def interval_handler_def and_then_def run_callback_def
          flush_two effect_defs)
  next
    case np: False
    with tr have nt: "\<not> intervalTrigger s" by blast
    from False m cb deps np nt show ?thesis
      by (cases s; cases "callback (cur_props s)")
         (auto simp add: tick_def interval_handler_def and_then_def run_callback_def
          flush_two effect_defs)
  qed
qed

lemma tick_quiescent:
  assumes "quiescent s" "tick s = Inr s'"
  shows "quiescent s'"
proof (cases "unmountedRef s")
  case True
  with assms(2) have "s' = s" by (simp add: tick_cases [OF assms(1)])
  with assms(1) show ?thesis by simp
next
  case False
  note q = quiescentD [OF assms(1)]
  show ?thesis
  proof (cases "paused (cur_props s)")
    case True
    with False assms(2)
    have "s' = s\<lparr>intervalTrigger := True, trigger_deps := (True, True),
                  on_ticks := Suc (on_ticks s)\<rparr>"
      by (simp add: tick_cases [OF assms(1)])
    with q False True show ?thesis by (simp add: quiescent_def)
  next
    case np: False
    show ?thesis
    proof (cases "ready s = Some True")
      case True
      with False np assms(2)
      have "s' = s\<lparr>ready := Some False, invocations := Suc (invocations s),
                   in_flight := Suc (in_flight s), on_ticks := Suc (on_ticks s)\<rparr>"
        by (cases "callback (cur_props s)") (simp_all add: tick_cases [OF assms(1)])
      with q False np True show ?thesis by (simp add: quiescent_def)
    next
      case nr: False
      with False np assms(2)
      have "s' = s\<lparr>on_ticks := Suc (on_ticks s)\<rparr>"
        by (simp add: tick_cases [OF assms(1)])
      with q False np show ?thesis by (simp add: quiescent_def)
    qed
  qed
qed

lemma settle_cases:
  assumes "quiescent s"
  shows "step (Settle r) s =
     Inr (if in_flight s = 0 then s else s\<lparr>ready := Some True, in_flight := 0\<rparr>)"
proof (cases "in_flight s = 0")
  case True
  then show ?thesis by simp
next
  case False
  note q = quiescentD [OF assms]
  from False q(6) have fl: "in_flight s = 1" by simp
  let ?s = "task_settled r (s\<lparr>in_flight := in_flight s - 1\<rparr>)"
  have eq: "?s = s\<lparr>ready := Some True, in_flight := 0\<rparr>"
    using fl by (cases r) (simp_all add: task_settled_def setReady_def)
  have "flush ?s = Inr ?s"
  proof (cases "mounted s")
    case True
    from q show ?thesis
      unfolding eq by (intro flush_quiet) simp_all
  next
    case False
    then show ?thesis unfolding eq by (simp add: flush_two)
  qed
  with False eq show ?thesis by simp
qed

lemma settle_quiescent:
  assumes "quiescent s" "step (Settle r) s = Inr s'"
  shows "quiescent s'"
proof (cases "in_flight s = 0")
  case True
  with assms(2) have "s' = s" unfolding settle_cases [OF assms(1)] by simp
  with assms(1) show ?thesis by simp
next
  case False
  with assms(2) have "s' = s\<lparr>ready := Some True, in_flight := 0\<rparr>"
    unfolding settle_cases [OF assms(1)] by simp
  with quiescentD [OF assms(1)] show ?thesis by (simp add: quiescent_def)
qed

lemma cleanup_cleared:
  assumes "timeoutRef s = Some h" "filter (\<lambda>t. fst t \<noteq> h) (timers s) = []"
  shows "timer_cleanup s = s\<lparr>unmountedRef := True, timers := []\<rparr>"
  using assms by (simp add: timer_cleanup_def clearInterval_def Let_def)

lemma quiescent_timers:
  assumes "quiescent s"
  obtains h where "timeoutRef s = Some h" "filter (\<lambda>t. fst t \<noteq> h) (timers s) = []"
proof -
  note q = quiescentD [OF assms]
  from q(10) obtain h where h: "timeoutRef s = Some h" by blast
  have "filter (\<lambda>t. fst t \<noteq> h) (timers s) = []"
    using q(7,8) h by (cases "unmountedRef s"; cases "timers s") auto
  with h that show thesis by blast
qed

lemma cleanup_quiescent:
  assumes "quiescent s"
  shows "timer_cleanup s = s\<lparr>unmountedRef := True, timers := []\<rparr>"
  using quiescent_timers [OF assms] cleanup_cleared by metis

lemma unmount_quiescent:
  assumes "quiescent s" "step Unmount s = Inr s'"
  shows "quiescent s'"
proof (cases "mounted s")
  case False
  with assms show ?thesis by auto
next
  case True
  with assms(2) have "s' = s\<lparr>unmountedRef := True, timers := [], mounted := False\<rparr>"
    by (auto simp: unmount_def cleanup_quiescent [OF assms(1)])
  with quiescentD [OF assms(1)] show ?thesis by (simp add: quiescent_def)
qed

lemma flush_same:
  assumes "commit s = Inr s'" "mounted s" "intervalTrigger s' = intervalTrigger s" "ready s' = ready s"
  shows "flush s = Inr s'"
  using assms by (simp add: flush_two)

lemma flush_again:
  assumes "commit s = Inr s'" "mounted s" "intervalTrigger s' \<noteq> intervalTrigger s"
  shows "flush s = commit s'"
  using assms by (simp add: flush_two)

lemma commit_render_quiet:
  assumes "quiescent s" "paused pr \<or> \<not> intervalTrigger s"
  shows "commit (s\<lparr>cur_props := pr\<rparr>) = Inr (rendered pr s)"
proof -
  note q = quiescentD [OF assms(1)]
  from quiescent_timers [OF assms(1)] obtain h where
    h: "timeoutRef s = Some h" "filter (\<lambda>t. fst t \<noteq> h) (timers s) = []" by blast
  have c': "timer_cleanup (s\<lparr>cur_props := pr\<rparr>) = s\<lparr>cur_props := pr, unmountedRef := True, timers := []\<rparr>"
    using h by (simp add: cleanup_cleared [of _ h])
  from assms(2) q(1,2,4) h(1) c' show ?thesis
    by (cases "timeout pr = timeout (cur_props s)"; cases "paused pr"; cases "intervalTrigger s";
        cases "paused (cur_props s)")
      (simp_all add: rendered_def commit_def Let_def trigger_effect_def
          timer_effect_def save_callback_effect_def)
qed


lemma commit_render_unpause:
  assumes "quiescent s" "\<not> paused pr" "intervalTrigger s"
  shows "commit (s\<lparr>cur_props := pr\<rparr>) =
     (if ready s = Some True then
        (case callback pr of
           Throws \<Rightarrow> Inl Task_threw
         | Returns_promise \<Rightarrow>
             Inr ((rendered pr s)\<lparr>intervalTrigger := False, ready := Some False,
                   invocations := Suc (invocations s), in_flight := Suc (in_flight s)\<rparr>))
      else Inr ((rendered pr s)\<lparr>intervalTrigger := False\<rparr>))"
proof -
  note q = quiescentD [OF assms(1)]
  from quiescent_timers [OF assms(1)] obtain h where
    h: "timeoutRef s = Some h" "filter (\<lambda>t. fst t \<noteq> h) (timers s) = []" by blast
  have c': "timer_cleanup (s\<lparr>cur_props := pr\<rparr>) = s\<lparr>cur_props := pr, unmountedRef := True, timers := []\<rparr>"
    using h by (simp add: cleanup_cleared [of _ h])
  from assms(3) q(3) have "paused (cur_props s)" by simp
  with assms(2,3) q(1,2,4) h(1) c' show ?thesis
    by (cases "timeout pr = timeout (cur_props s)"; cases "ready s = Some True";
        cases "callback pr")
      (simp_all add: rendered_def commit_def Let_def trigger_effect_def
          timer_effect_def save_callback_effect_def setIntervalTrigger_def setReady_def)
qed

lemma commit_reset_deps:
  assumes "\<not> intervalTrigger s" "timeout_deps s = timeout (cur_props s)"
    "savedCallback s = Some (Set_trigger True)"
  shows "commit s = Inr (s\<lparr>trigger_deps := (False, paused (cur_props s))\<rparr>)"
  using assms
  by (simp add: commit_def Let_def trigger_effect_def save_callback_effect_def)

lemma render_cases:
  assumes "quiescent s" "mounted s"
  shows "step (Render pr) s =
     (if paused pr \<or> \<not> intervalTrigger s then Inr (rendered pr s)
      else if ready s = Some True then
        (case callback pr of
           Throws \<Rightarrow> Inl Task_threw
         | Returns_promise \<Rightarrow>
             Inr ((rendered pr s)\<lparr>intervalTrigger := False, trigger_deps := (False, False),
                   ready := Some False, invocations := Suc (invocations s),
                   in_flight := Suc (in_flight s)\<rparr>))
      else Inr ((rendered pr s)\<lparr>intervalTrigger := False, trigger_deps := (False, False)\<rparr>))"
proof (cases "paused pr \<or> \<not> intervalTrigger s")
  case True
  have "flush (s\<lparr>cur_props := pr\<rparr>) = Inr (rendered pr s)"
    using assms(2)
    by (intro flush_same commit_render_quiet [OF assms(1) True]) (simp_all add: rendered_def)
  with True assms(2) show ?thesis by simp
next
  case False
  then have p: "\<not> paused pr" "intervalTrigger s" by auto
  note q = quiescentD [OF assms(1)]
  note c = commit_render_unpause [OF assms(1) p]
  show ?thesis
  proof (cases "ready s = Some True")
    case r: True
    show ?thesis
    proof (cases "callback pr")
      case Throws
      with c r assms(2) p show ?thesis by (simp add: flush_two)
    next
      case Returns_promise
      let ?x = "(rendered pr s)\<lparr>intervalTrigger := False, ready := Some False,
                   invocations := Suc (invocations s), in_flight := Suc (in_flight s)\<rparr>"
      from c r Returns_promise have c1: "commit (s\<lparr>cur_props := pr\<rparr>) = Inr ?x" by simp
      have "flush (s\<lparr>cur_props := pr\<rparr>) = commit ?x"
        using c1 assms(2) p by (intro flush_again) simp_all
      also have "\<dots> = Inr (?x\<lparr>trigger_deps := (False, paused (cur_props ?x))\<rparr>)"
        using q(4) by (intro commit_reset_deps) (simp_all add: rendered_def)
      finally show ?thesis using p r Returns_promise assms(2) by (simp add: rendered_def)
    qed
  next
    case r: False
    let ?x = "(rendered pr s)\<lparr>intervalTrigger := False\<rparr>"
    from c r have c1: "commit (s\<lparr>cur_props := pr\<rparr>) = Inr ?x" by simp
    have "flush (s\<lparr>cur_props := pr\<rparr>) = commit ?x"
      using c1 assms(2) p by (intro flush_again) simp_all
    also have "\<dots> = Inr (?x\<lparr>trigger_deps := (False, paused (cur_props ?x))\<rparr>)"
      using q(4) by (intro commit_reset_deps) (simp_all add: rendered_def)
    finally show ?thesis using p r assms(2) by (simp add: rendered_def)
  qed
qed

lemma render_quiescent:
  assumes "quiescent s" "step (Render pr) s = Inr s'"
  shows "quiescent s'"
proof (cases "mounted s")
  case False
  with assms show ?thesis by simp
next
  case True
  note q = quiescentD [OF assms(1)]
  note r = render_cases [OF assms(1) True, of pr]
  have base: "quiescent ((rendered pr s)\<lparr>intervalTrigger := b, trigger_deps := (b, paused pr)\<rparr>)"
    if "paused pr \<or> \<not> b" for b
    using q that by (simp add: quiescent_def rendered_def)
  show ?thesis
  proof (cases "paused pr \<or> \<not> intervalTrigger s")
    case quiet: True
    with assms(2) r have "s' = rendered pr s" by simp
    also have "\<dots> = (rendered pr s)\<lparr>intervalTrigger := intervalTrigger s,
        trigger_deps := (intervalTrigger s, paused pr)\<rparr>"
      by (simp add: rendered_def)
    finally show ?thesis using base [OF quiet] by simp
  next
    case False
    then have p: "\<not> paused pr" "intervalTrigger s" by auto
    from base [of False] p
    have b: "quiescent ((rendered pr s)\<lparr>intervalTrigger := False, trigger_deps := (False, False)\<rparr>)"
      by simp
    show ?thesis
    proof (cases "ready s = Some True")
      case rdy: True
      with q(5) have fl: "in_flight s = 0" by simp
      from assms(2) r p rdy
      have "s' = (rendered pr s)\<lparr>intervalTrigger := False, trigger_deps := (False, False),
                   ready := Some False, invocations := Suc (invocations s),
                   in_flight := Suc (in_flight s)\<rparr>"
        by (cases "callback pr") simp_all
      with b fl show ?thesis by (simp add: quiescent_def)
    next
      case False
      with assms(2) r p
      have "s' = (rendered pr s)\<lparr>intervalTrigger := False, trigger_deps := (False, False)\<rparr>"
        by simp
      with b show ?thesis by simp
    qed
  qed
qed

lemma fst_advance_timer [simp]: "fst (advance_timer t) = fst t"
  by (simp add: advance_timer_def)

lemma advanced_quiescent:
  assumes "quiescent s"
  shows "quiescent (s\<lparr>timers := map advance_timer (timers s)\<rparr>)"
  using quiescentD [OF assms] by (simp add: quiescent_def comp_def)

lemma deliver_quiescent: "quiescent s \<Longrightarrow> deliver n s = Inr s' \<Longrightarrow> quiescent s'"
proof (induction n arbitrary: s)
  case 0
  then show ?case by simp
next
  case (Suc n)
  from Suc.prems(2) obtain s1 where "tick s = Inr s1" "deliver n s1 = Inr s'"
    by (auto simp: and_then_def split: sum.splits)
  with Suc.IH tick_quiescent [OF Suc.prems(1)] show ?case by blast
qed

lemma step_quiescent: "quiescent s \<Longrightarrow> step ev s = Inr s' \<Longrightarrow> quiescent s'"
proof (cases ev)
  case Tick
  assume "quiescent s" "step ev s = Inr s'"
  with Tick show ?thesis using tick_quiescent by simp
next
  case Elapse_ms
  assume "quiescent s" "step ev s = Inr s'"
  with Elapse_ms show ?thesis
    using deliver_quiescent [OF advanced_quiescent] by simp
next
  case (Settle r)
  assume "quiescent s" "step ev s = Inr s'"
  with Settle show ?thesis using settle_quiescent by blast
next
  case (Render pr)
  assume "quiescent s" "step ev s = Inr s'"
  with Render show ?thesis using render_quiescent by blast
next
  case Unmount
  assume "quiescent s" "step ev s = Inr s'"
  with Unmount show ?thesis using unmount_quiescent by blast
qed

lemma run_quiescent: "quiescent s \<Longrightarrow> run evs s = Inr s' \<Longrightarrow> quiescent s'"
proof (induction evs arbitrary: s)
  case Nil
  then show ?case by simp
next
  case (Cons ev evs)
  from Cons.prems(2) obtain s1 where "step ev s = Inr s1" "run evs s1 = Inr s'"
    by (auto simp: and_then_def split: sum.splits)
  with Cons.IH step_quiescent [OF Cons.prems(1)] show ?case by blast
qed

lemma reachable_quiescent:
  assumes "run_from_mount pr evs = Inr s"
  shows "quiescent s"
proof -
  from assms obtain s0 where "mount pr = Inr s0" "run evs s0 = Inr s"
    by (auto simp: run_from_mount_def and_then_def split: sum.splits)
  with mount_quiescent run_quiescent show ?thesis by blast
qed

section \<open>Helpers for the claims\<close>

lemma run_append: "run (xs @ ys) s = and_then (run xs s) (run ys)"
  by (induction xs arbitrary: s) (auto simp: and_then_def split: sum.splits)

lemma holds_afterI: "r = Inr s \<Longrightarrow> P s \<Longrightarrow> holds_after r P"
  by (simp add: holds_after_def)

lemma holds_afterE:
  assumes "holds_after r P"
  obtains s where "r = Inr s" "P s"
  using assms by (auto simp: holds_after_def split: sum.splits)

lemmas ev_simps = run_from_mount_def mount_def first_commit_def initial_def flush_two commit_def
      and_then_def delay_of_def TIMEOUT_MAX_def total_ticks_def
      tick_def interval_handler_def run_callback_def trigger_effect_def init_ready_effect_def
      save_callback_effect_def timer_effect_def setInterval_def setReady_def setIntervalTrigger_def
      task_settled_def timer_cleanup_def clearInterval_def unmount_def is_due_def advance_timer_def
      Let_def holds_after_def total_invocations_def


text \<open>The one place where the task is called.\<close>

lemma trigger_effect_invokes:
  assumes "trigger_effect pr trig rdy t = Inr t'" "invocations t' \<noteq> invocations t"
  shows "rdy = Some True \<and> trig \<and> \<not> paused pr \<and> ready t' = Some False \<and>
    invocations t' = Suc (invocations t) \<and> in_flight t' = Suc (in_flight t)"
  using assms unfolding trigger_effect_def Let_def
  by (cases "paused pr"; cases trig; cases "rdy = Some True"; cases "callback pr")
    (auto simp add: setIntervalTrigger_def setReady_def)

subsection \<open>After the unmount\<close>

lemma tick_torn_down:
  assumes "\<not> mounted s" "unmountedRef s"
  shows "tick s = Inr s"
  using assms by (simp add: tick_def interval_handler_def and_then_def flush_two)

lemma deliver_torn_down:
  assumes "\<not> mounted s" "unmountedRef s"
  shows "deliver n s = Inr s"
  using assms by (induction n) (simp_all add: tick_torn_down and_then_def)

lemma step_torn_down:
  assumes "\<not> mounted s" "unmountedRef s"
  shows "\<exists>s'. step ev s = Inr s' \<and> \<not> mounted s' \<and> unmountedRef s' \<and>
    invocations s' = invocations s \<and> on_ticks s' = on_ticks s \<and> in_flight s' \<le> in_flight s"
proof (cases ev)
  case Tick
  with assms show ?thesis by (simp add: tick_torn_down)
next
  case Elapse_ms
  with assms show ?thesis by (simp add: deliver_torn_down)
next
  case (Settle r)
  with assms show ?thesis
    by (cases r) (simp_all add: flush_two task_settled_def setReady_def)
next
  case (Render pr)
  with assms show ?thesis by simp
next
  case Unmount
  with assms show ?thesis by simp
qed

lemma run_torn_down:
  assumes "\<not> mounted s" "unmountedRef s"
  shows "\<exists>s'. run evs s = Inr s' \<and> \<not> mounted s' \<and> unmountedRef s' \<and>
    invocations s' = invocations s \<and> on_ticks s' = on_ticks s \<and> in_flight s' \<le> in_flight s"
  using assms
proof (induction evs arbitrary: s)
  case Nil
  then show ?case by simp
next
  case (Cons ev evs)
  from step_torn_down [OF Cons.prems, of ev] obtain s1 where
    s1: "step ev s = Inr s1" "\<not> mounted s1" "unmountedRef s1" "invocations s1 = invocations s"
      "on_ticks s1 = on_ticks s" "in_flight s1 \<le> in_flight s" by blast
  from Cons.IH [OF s1(2,3)] obtain s' where
    "run evs s1 = Inr s'" "\<not> mounted s'" "unmountedRef s'" "invocations s' = invocations s1"
      "on_ticks s' = on_ticks s1" "in_flight s' \<le> in_flight s1" by blast
  with s1 show ?case by (simp add: and_then_def)
qed

lemma unmounted_torn_down:
  assumes "quiescent s"
  obtains u where "step Unmount s = Inr u" "\<not> mounted u" "unmountedRef u"
    "invocations u = invocations s" "on_ticks u = on_ticks s" "in_flight u = in_flight s"
proof (cases "mounted s")
  case True
  then show ?thesis
    using that [of "unmount s"] by (simp add: unmount_def cleanup_quiescent [OF assms])
next
  case False
  with quiescentD(9) [OF assms] have "unmountedRef s" by blast
  with False show ?thesis using that [of s] by simp
qed

subsection \<open>Ticks while the task is in flight, and while paused\<close>

lemma tick_while_busy:
  assumes "quiescent s" "0 < in_flight s" "\<not> paused (cur_props s)" "\<not> unmountedRef s"
  shows "tick s = Inr (s\<lparr>on_ticks := Suc (on_ticks s)\<rparr>)"
  using assms(2-) quiescentD(5) [OF assms(1)] by (simp add: tick_cases [OF assms(1)])

lemma ticks_while_busy:
  assumes "quiescent s" "0 < in_flight s" "\<not> paused (cur_props s)" "\<not> unmountedRef s"
  shows "run (replicate n Tick) s = Inr (s\<lparr>on_ticks := on_ticks s + n\<rparr>)"
  using assms
proof (induction n arbitrary: s)
  case 0
  then show ?case by simp
next
  case (Suc n)
  let ?s = "s\<lparr>on_ticks := Suc (on_ticks s)\<rparr>"
  have t: "tick s = Inr ?s" using Suc.prems by (rule tick_while_busy)
  from tick_quiescent [OF Suc.prems(1) t] have "quiescent ?s" .
  from Suc.IH [OF this] Suc.prems(2-) have "run (replicate n Tick) ?s = Inr (?s\<lparr>on_ticks := on_ticks ?s + n\<rparr>)"
    by simp
  with t show ?case by (simp add: and_then_def)
qed

lemma run_snoc: "run xs s = Inr s1 \<Longrightarrow> run (xs @ [ev]) s = step ev s1"
  by (cases "step ev s1") (simp_all add: run_append and_then_def)

lemma ticks_while_paused:
  assumes "quiescent s" "paused (cur_props s)" "\<not> unmountedRef s"
  shows "run (replicate (Suc n) Tick) s =
    Inr (s\<lparr>intervalTrigger := True, trigger_deps := (True, True),
          on_ticks := Suc (on_ticks s + n)\<rparr>)"
  using assms
proof (induction n arbitrary: s)
  case 0
  then show ?case by (simp add: tick_cases and_then_def)
next
  case (Suc n)
  let ?s = "s\<lparr>intervalTrigger := True, trigger_deps := (True, True), on_ticks := Suc (on_ticks s)\<rparr>"
  have t: "tick s = Inr ?s" using Suc.prems by (simp add: tick_cases)
  from tick_quiescent [OF Suc.prems(1) t] have "quiescent ?s" .
  from Suc.IH [OF this] Suc.prems(2-)
  have "run (replicate (Suc n) Tick) ?s =
    Inr (?s\<lparr>intervalTrigger := True, trigger_deps := (True, True),
          on_ticks := Suc (on_ticks ?s + n)\<rparr>)"
    by simp
  with t show ?case by (simp add: and_then_def)
qed

subsection \<open>The clock\<close>

lemma tick_clock:
  assumes "quiescent s" "\<not> unmountedRef s" "callback (cur_props s) = Returns_promise"
  shows "\<exists>s'. tick s = Inr s' \<and> timers s' = timers s \<and> on_ticks s' = Suc (on_ticks s) \<and>
    \<not> unmountedRef s' \<and> cur_props s' = cur_props s"
  using assms(2,3) unfolding tick_cases [OF assms(1)] by simp

lemma elapse_on_schedule:
  assumes "on_schedule p t s" "0 < p"
  shows "\<exists>s'. step Elapse_ms s = Inr s' \<and> on_schedule p (Suc t) s'"
proof -
  from assms(1) have q: "quiescent s" and u: "\<not> unmountedRef s"
    and c: "callback (cur_props s) = Returns_promise"
    and tm: "map (\<lambda>t. snd t) (timers s) = [(p, p - t mod p)]" and n: "on_ticks s = t div p"
    by (simp_all add: on_schedule_def)
  from tm obtain h where h: "timers s = [(h, p, p - t mod p)]"
    by (cases "timers s") auto
  let ?s1 = "s\<lparr>timers := map advance_timer (timers s)\<rparr>"
  have q1: "quiescent ?s1" using q by (rule advanced_quiescent)
  from assms(2) have lt: "t mod p < p" by simp
  show ?thesis
  proof (cases "Suc (t mod p) = p")
    case True
    then have due: "is_due (h, p, p - t mod p)" by (simp add: is_due_def)
    from tick_clock [OF q1] u c obtain s' where
      s': "tick ?s1 = Inr s'" "timers s' = timers ?s1" "on_ticks s' = Suc (on_ticks ?s1)"
      "\<not> unmountedRef s'" "cur_props s' = cur_props ?s1" by auto
    from tick_quiescent [OF q1 s'(1)] have "quiescent s'" .
    moreover from True have "Suc t mod p = 0" "Suc t div p = Suc (t div p)"
      by (simp_all add: mod_Suc div_Suc)
    ultimately have "on_schedule p (Suc t) s'"
      using s' h due c n by (simp add: on_schedule_def advance_timer_def)
    moreover have "step Elapse_ms s = Inr s'"
      using h due s'(1) by (simp add: and_then_def)
    ultimately show ?thesis by blast
  next
    case False
    with lt have nd: "\<not> is_due (h, p, p - t mod p)" by (simp add: is_due_def)
    from False have "Suc t mod p = Suc (t mod p)" "Suc t div p = t div p"
      by (simp_all add: mod_Suc div_Suc)
    with q1 u c h nd n have "on_schedule p (Suc t) ?s1"
      by (simp add: on_schedule_def advance_timer_def)
    moreover have "step Elapse_ms s = Inr ?s1"
      using h nd by simp
    ultimately show ?thesis by blast
  qed
qed

lemma settle_on_schedule:
  assumes "on_schedule p t s"
  shows "\<exists>s'. step (Settle r) s = Inr s' \<and> on_schedule p t s'"
proof -
  from assms have q: "quiescent s" by (simp add: on_schedule_def)
  let ?s' = "if in_flight s = 0 then s else s\<lparr>ready := Some True, in_flight := 0\<rparr>"
  have st: "step (Settle r) s = Inr ?s'" by (rule settle_cases [OF q])
  from step_quiescent [OF q st] have "quiescent ?s'" .
  with assms have "on_schedule p t ?s'" by (simp add: on_schedule_def)
  with st show ?thesis by blast
qed

lemma run_on_schedule:
  assumes "on_schedule p t s" "0 < p"
    and "\<forall>ev\<in>set evs. ev = Elapse_ms \<or> ev = Settle Fulfilled \<or> ev = Settle Rejected"
  shows "\<exists>s'. run evs s = Inr s' \<and> on_schedule p (t + elapsed_ms evs) s'"
  using assms
proof (induction evs arbitrary: s t)
  case Nil
  then show ?case by (simp add: elapsed_ms_def)
next
  case (Cons ev evs)
  from Cons.prems(3) consider "ev = Elapse_ms" | r where "ev = Settle r" by auto
  then obtain s1 where s1: "step ev s = Inr s1"
    "on_schedule p (t + elapsed_ms [ev]) s1"
  proof cases
    case 1
    with elapse_on_schedule [OF Cons.prems(1,2)] that show ?thesis
      by (auto simp: elapsed_ms_def)
  next
    case 2
    with settle_on_schedule [OF Cons.prems(1)] that show ?thesis
      by (auto simp: elapsed_ms_def)
  qed
  from Cons.prems(3) have "\<forall>ev\<in>set evs. ev = Elapse_ms \<or> ev = Settle Fulfilled \<or> ev = Settle Rejected"
    by simp
  from Cons.IH [OF s1(2) Cons.prems(2) this] obtain s' where
    "run evs s1 = Inr s'" "on_schedule p (t + elapsed_ms [ev] + elapsed_ms evs) s'" by blast
  moreover have "elapsed_ms (ev # evs) = elapsed_ms [ev] + elapsed_ms evs"
    by (simp add: elapsed_ms_def)
  ultimately show ?case using s1(1) by (simp add: and_then_def add.assoc)
qed

lemma delay_of_pos: "0 < delay_of p"
  by (simp add: delay_of_def)

lemma mount_on_schedule:
  assumes "callback pr = Returns_promise"
  shows "\<exists>s. mount pr = Inr s \<and> on_schedule (delay_of (timeout pr)) 0 s"
proof -
  have "\<exists>s. mount pr = Inr s \<and> \<not> unmountedRef s \<and> cur_props s = pr \<and>
    timers s = [(0, delay_of (timeout pr), delay_of (timeout pr))] \<and> on_ticks s = 0"
    by (simp add: mount_def first_commit_def and_then_def initial_def init_ready_effect_def
        flush_two commit_def Let_def trigger_effect_def save_callback_effect_def
        timer_effect_def setInterval_def setReady_def)
  then obtain s where s: "mount pr = Inr s" "\<not> unmountedRef s" "cur_props s = pr"
    "timers s = [(0, delay_of (timeout pr), delay_of (timeout pr))]" "on_ticks s = 0" by blast
  with mount_quiescent [OF s(1)] assms show ?thesis by (simp add: on_schedule_def)
qed

lemma ticks_at_delay:
  assumes "callback pr = Returns_promise"
    and "set evs \<subseteq> {Elapse_ms, Settle Fulfilled, Settle Rejected}"
  shows "holds_after (run_from_mount pr evs)
    (\<lambda>s. on_ticks s = elapsed_ms evs div delay_of (timeout pr) \<and>
       map snd (timers s) =
         [(delay_of (timeout pr), delay_of (timeout pr) - elapsed_ms evs mod delay_of (timeout pr))])"
proof -
  from mount_on_schedule [OF assms(1)] obtain s0 where
    s0: "mount pr = Inr s0" "on_schedule (delay_of (timeout pr)) 0 s0" by blast
  from assms(2)
  have "\<forall>ev\<in>set evs. ev = Elapse_ms \<or> ev = Settle Fulfilled \<or> ev = Settle Rejected"
    by auto
  from run_on_schedule [OF s0(2) delay_of_pos this] obtain s where
    "run evs s0 = Inr s" "on_schedule (delay_of (timeout pr)) (elapsed_ms evs) s" by auto
  with s0(1) show ?thesis
    by (simp add: run_from_mount_def and_then_def holds_after_def on_schedule_def)
qed

lemma elapsed_ms_replicate: "elapsed_ms (replicate n Elapse_ms) = n"
  by (simp add: elapsed_ms_def)

lemma elapse_without_timer:
  assumes "timers s = []"
  shows "step Elapse_ms s = Inr s"
  using assms by (cases s) simp

lemma wait_without_timer:
  assumes "timers s = []"
  shows "run (replicate n Elapse_ms) s = Inr s"
  using assms by (induction n) (simp_all add: elapse_without_timer and_then_def del: step.simps)

subsection \<open>Once the cleanup has run\<close>

text \<open>
  Nothing in the source sets \<^verbatim>\<open>unmountedRef.current\<close> back to \<^verbatim>\<open>false\<close>, and the handler calls
  the saved callback only while it is false.
\<close>

lemma trigger_effect_keeps:
  assumes "trigger_effect pr trig rdy s = Inr s'"
  shows "on_ticks s' = on_ticks s \<and> unmountedRef s' = unmountedRef s"
proof -
  from assms consider "s' = s" | "s' = setIntervalTrigger False s"
    | "s' = (setReady False (setIntervalTrigger False s))
          \<lparr>invocations := Suc (invocations (setReady False (setIntervalTrigger False s))),
           in_flight := Suc (in_flight (setReady False (setIntervalTrigger False s)))\<rparr>"
    unfolding trigger_effect_def Let_def
    by (cases "paused pr"; cases trig; cases "rdy = Some True"; cases "callback pr") simp_all
  then show ?thesis
    by cases (simp_all add: setIntervalTrigger_def setReady_def)
qed

lemma timer_cleanup_keeps:
  "on_ticks (timer_cleanup s) = on_ticks s" "unmountedRef (timer_cleanup s)"
  by (simp_all add: timer_cleanup_def clearInterval_def Let_def split: option.splits)

lemma timer_effect_keeps:
  "on_ticks (timer_effect pr s) = on_ticks s" "unmountedRef (timer_effect pr s) = unmountedRef s"
  by (simp_all add: timer_effect_def setInterval_def split: option.splits)

lemma save_callback_effect_keeps:
  "on_ticks (save_callback_effect cb s) = on_ticks s"
  "unmountedRef (save_callback_effect cb s) = unmountedRef s"
  by (simp_all add: save_callback_effect_def)


lemma after_trigger_effect_stopped:
  assumes "on_ticks s2 = on_ticks s" "unmountedRef s2"
  shows "unmountedRef ((if c then timer_effect pr (save_callback_effect cb s2)
                   else save_callback_effect cb s2)\<lparr>trigger_deps := d, timeout_deps := e\<rparr>) \<and>
    on_ticks ((if c then timer_effect pr (save_callback_effect cb s2)
                   else save_callback_effect cb s2)\<lparr>trigger_deps := d, timeout_deps := e\<rparr>)
      = on_ticks s"
  using assms by (simp add: timer_effect_keeps save_callback_effect_keeps)

lemma commit_stopped:
  assumes "commit s = Inr s'" "unmountedRef s"
  shows "unmountedRef s' \<and> on_ticks s' = on_ticks s"
proof -
  let ?pr = "cur_props s"
  let ?s1 = "if timeout ?pr \<noteq> timeout_deps s then timer_cleanup s else s"
  have s1: "on_ticks ?s1 = on_ticks s" "unmountedRef ?s1"
    using assms(2) by (simp_all add: timer_cleanup_keeps)
  show ?thesis
  proof (cases "(intervalTrigger s, paused ?pr) \<noteq> trigger_deps s")
    case True
    with assms(1) obtain s2 where
      t: "trigger_effect ?pr (intervalTrigger s) (ready s) ?s1 = Inr s2"
      and s': "s' = (if timeout ?pr \<noteq> timeout_deps s
                   then timer_effect ?pr (save_callback_effect (Set_trigger True) s2)
                   else save_callback_effect (Set_trigger True) s2)
             \<lparr>trigger_deps := (intervalTrigger s, paused ?pr), timeout_deps := timeout ?pr\<rparr>"
      unfolding commit_def Let_def
      by (cases "trigger_effect ?pr (intervalTrigger s) (ready s) ?s1") simp_all
    from trigger_effect_keeps [OF t] s1 have "on_ticks s2 = on_ticks s" "unmountedRef s2"
      by simp_all
    then show ?thesis unfolding s' by (rule after_trigger_effect_stopped)
  next
    case False
    with assms(1) have s': "s' = (if timeout ?pr \<noteq> timeout_deps s
                   then timer_effect ?pr (save_callback_effect (Set_trigger True) ?s1)
                   else save_callback_effect (Set_trigger True) ?s1)
             \<lparr>trigger_deps := (intervalTrigger s, paused ?pr), timeout_deps := timeout ?pr\<rparr>"
      unfolding commit_def Let_def by simp
    from s1 show ?thesis unfolding s' by (rule after_trigger_effect_stopped)
  qed
qed


lemma flush_stopped:
  assumes "flush s = Inr s'" "unmountedRef s"
  shows "unmountedRef s' \<and> on_ticks s' = on_ticks s"
proof (cases "mounted s")
  case False
  with assms show ?thesis by (simp add: flush_two)
next
  case True
  show ?thesis
  proof (cases "commit s")
    case (Inl e)
    with True assms(1) show ?thesis by (simp add: flush_two)
  next
    case (Inr s1)
    note u1 = commit_stopped [OF Inr assms(2)]
    show ?thesis
    proof (cases "intervalTrigger s1 = intervalTrigger s \<and> ready s1 = ready s")
      case same: True
      with True Inr assms(1) have "s' = s1" by (simp add: flush_two)
      with u1 show ?thesis by simp
    next
      case False
      with True Inr assms(1) have "commit s1 = Inr s'" by (auto simp add: flush_two)
      from commit_stopped [OF this] u1 show ?thesis by simp
    qed
  qed
qed

lemma tick_stopped:
  assumes "tick s = Inr s'" "unmountedRef s"
  shows "unmountedRef s' \<and> on_ticks s' = on_ticks s"
proof -
  from assms have "flush s = Inr s'"
    by (simp add: tick_def interval_handler_def and_then_def)
  then show ?thesis using assms(2) by (rule flush_stopped)
qed

lemma deliver_stopped:
  assumes "deliver n s = Inr s'" "unmountedRef s"
  shows "unmountedRef s' \<and> on_ticks s' = on_ticks s"
  using assms
proof (induction n arbitrary: s)
  case 0
  then show ?case by simp
next
  case (Suc n)
  from Suc.prems(1) obtain s1 where s1: "tick s = Inr s1" "deliver n s1 = Inr s'"
    by (cases "tick s") (simp_all add: and_then_def)
  from tick_stopped [OF s1(1) Suc.prems(2)] Suc.IH [OF s1(2)] show ?case by simp
qed

lemma step_stopped:
  assumes "step ev s = Inr s'" "unmountedRef s"
  shows "unmountedRef s' \<and> on_ticks s' = on_ticks s"
proof (cases ev)
  case Tick
  with assms tick_stopped show ?thesis by simp
next
  case Elapse_ms
  with assms(1)
  have "deliver (length (filter is_due (timers s))) (s\<lparr>timers := map advance_timer (timers s)\<rparr>)
    = Inr s'" by simp
  from deliver_stopped [OF this] assms(2) show ?thesis by simp
next
  case (Settle r)
  show ?thesis
  proof (cases "in_flight s = 0")
    case True
    with Settle assms show ?thesis by simp
  next
    case False
    with Settle assms(1) have "flush (task_settled r (s\<lparr>in_flight := in_flight s - 1\<rparr>)) = Inr s'"
      by simp
    from flush_stopped [OF this] assms(2) show ?thesis
      by (cases r) (simp_all add: task_settled_def setReady_def)
  qed
next
  case (Render pr)
  show ?thesis
  proof (cases "mounted s")
    case True
    with Render assms(1) have "flush (s\<lparr>cur_props := pr\<rparr>) = Inr s'" by simp
    from flush_stopped [OF this] assms(2) show ?thesis by simp
  next
    case False
    with Render assms show ?thesis by simp
  qed
next
  case Unmount
  with assms show ?thesis
    by (cases "mounted s") (auto simp: unmount_def timer_cleanup_keeps)
qed

lemma run_stopped:
  assumes "run evs s = Inr s'" "unmountedRef s"
  shows "unmountedRef s' \<and> on_ticks s' = on_ticks s"
  using assms
proof (induction evs arbitrary: s)
  case Nil
  then show ?case by simp
next
  case (Cons ev evs)
  from Cons.prems(1) obtain s1 where s1: "step ev s = Inr s1" "run evs s1 = Inr s'"
    by (cases "step ev s") (simp_all add: and_then_def)
  from step_stopped [OF s1(1) Cons.prems(2)] Cons.IH [OF s1(2)] show ?case by simp
qed

lemma period_change_clears_interval:
  assumes "quiescent s" "mounted s" "timeout pr' \<noteq> timeout (cur_props s)"
    and "step (Render pr') s = Inr s'"
  shows "timers s' = [] \<and> unmountedRef s' \<and> mounted s'"
proof -
  note r = assms(4) [unfolded render_cases [OF assms(1,2)]]
  consider "s' = rendered pr' s"
    | "s' = (rendered pr' s)\<lparr>intervalTrigger := False, trigger_deps := (False, False),
                   ready := Some False, invocations := Suc (invocations s),
                   in_flight := Suc (in_flight s)\<rparr>"
    | "s' = (rendered pr' s)\<lparr>intervalTrigger := False, trigger_deps := (False, False)\<rparr>"
    using r
    by (cases "paused pr' \<or> \<not> intervalTrigger s"; cases "ready s = Some True";
        cases "callback pr'") simp_all
  then show ?thesis using assms(2,3) by cases (simp_all add: rendered_def)
qed

lemma rendered_on_ticks:
  assumes "quiescent s" "mounted s" "step (Render pr') s = Inr s'"
  shows "on_ticks s' = on_ticks s"
proof -
  note r = assms(3) [unfolded render_cases [OF assms(1,2)]]
  consider "s' = rendered pr' s"
    | "s' = (rendered pr' s)\<lparr>intervalTrigger := False, trigger_deps := (False, False),
                   ready := Some False, invocations := Suc (invocations s),
                   in_flight := Suc (in_flight s)\<rparr>"
    | "s' = (rendered pr' s)\<lparr>intervalTrigger := False, trigger_deps := (False, False)\<rparr>"
    using r
    by (cases "paused pr' \<or> \<not> intervalTrigger s"; cases "ready s = Some True";
        cases "callback pr'") simp_all
  then show ?thesis by cases (simp_all add: rendered_def)
qed

section \<open>The claims\<close>

text \<open>
  \<^bold>\<open>C1\<close>, as the claim states it, fails.  The first tick starts the task, three more
  ticks arrive while it runs, then it completes: the task has been called once, not twice.
  No follow-up call is made at completion.
\<close>

theorem no_follow_up_at_completion:
  "total_invocations (run_from_mount P1000 [Tick, Tick, Tick, Tick, Settle Fulfilled]) = Some 1"
  by (simp add: P1000_def ev_simps)

text \<open>
  \<^bold>\<open>C1\<close>, amended.  While the task is in flight and the hook is not paused, a tick
  records nothing: it resets the trigger, so that \<open>n\<close> ticks leave the state as it was but
  for the count of ticks.  The completion of the task sets \<open>ready\<close> and calls nothing.  The
  next call of the task is made by the first tick after the completion.
\<close>

theorem busy_ticks_are_dropped:
  assumes "run_from_mount pr evs = Inr s"
    and "0 < in_flight s" and "\<not> paused (cur_props s)" and "\<not> unmountedRef s"
    and "callback (cur_props s) = Returns_promise"
  shows "run (replicate n Tick) s = Inr (s\<lparr>on_ticks := on_ticks s + n\<rparr>) \<and>
    run (replicate n Tick @ [Settle r]) s =
      Inr (s\<lparr>ready := Some True, in_flight := 0, on_ticks := on_ticks s + n\<rparr>) \<and>
    run (replicate n Tick @ [Settle r, Tick]) s =
      Inr (s\<lparr>ready := Some False, in_flight := 1, on_ticks := Suc (on_ticks s + n),
            invocations := Suc (invocations s)\<rparr>)"
proof -
  note q = reachable_quiescent [OF assms(1)]
  let ?s1 = "s\<lparr>on_ticks := on_ticks s + n\<rparr>"
  let ?s2 = "s\<lparr>ready := Some True, in_flight := 0, on_ticks := on_ticks s + n\<rparr>"
  have a: "run (replicate n Tick) s = Inr ?s1"
    using q assms(2-4) by (rule ticks_while_busy)
  from run_quiescent [OF q a] have q1: "quiescent ?s1" .
  have b: "step (Settle r) ?s1 = Inr ?s2"
    unfolding settle_cases [OF q1] using assms(2) by simp
  from step_quiescent [OF q1 b] have q2: "quiescent ?s2" .
  have c: "tick ?s2 = Inr (s\<lparr>ready := Some False, in_flight := 1, on_ticks := Suc (on_ticks s + n),
            invocations := Suc (invocations s)\<rparr>)"
    using assms(3-5) by (simp add: tick_cases [OF q2])
  from a b c show ?thesis by (simp add: run_append and_then_def)
qed

theorem busy_ticks_are_dropped_witness:
  "holds_after (run_from_mount P1000 [Tick])
     (\<lambda>s. 0 < in_flight s \<and> \<not> paused (cur_props s) \<and> \<not> unmountedRef s \<and>
        callback (cur_props s) = Returns_promise \<and> invocations s = 1 \<and>
        run (replicate 3 Tick @ [Settle Fulfilled]) s =
          Inr (s\<lparr>ready := Some True, in_flight := 0, on_ticks := on_ticks s + 3\<rparr>) \<and>
        run (replicate 3 Tick @ [Settle Fulfilled, Tick]) s =
          Inr (s\<lparr>ready := Some False, in_flight := 1, on_ticks := Suc (on_ticks s + 3),
            invocations := Suc (invocations s)\<rparr>))"
proof -
  have "holds_after (run_from_mount P1000 [Tick])
     (\<lambda>s. 0 < in_flight s \<and> \<not> paused (cur_props s) \<and> \<not> unmountedRef s \<and>
        callback (cur_props s) = Returns_promise \<and> invocations s = 1)"
    by (simp add: P1000_def ev_simps)
  then obtain s where r: "run_from_mount P1000 [Tick] = Inr s"
    and s: "0 < in_flight s" "\<not> paused (cur_props s)" "\<not> unmountedRef s"
      "callback (cur_props s) = Returns_promise" "invocations s = 1"
    by (auto elim: holds_afterE)
  note t = busy_ticks_are_dropped [OF r s(1-4), of 3 Fulfilled]
  show ?thesis
    by (rule holds_afterI [OF r]) (use s t in blast)
qed

text \<open>
  \<^bold>\<open>C2\<close> fails on the code.  When a mounted hook is rendered with another \<open>timeout\<close>,
  the cleanup of the timer effect sets \<^verbatim>\<open>unmountedRef\<close> and clears the interval; the effect
  then finds \<^verbatim>\<open>timeoutRef.current\<close> set and creates no interval.  From then on, whatever
  the events are, no clock is live and the saved callback is never called again.  The
  instance after the theorem is a hook mounted with 1000 ms and rendered again with
  2000 ms: six seconds later no tick has come.
\<close>

theorem period_change_stops_the_clock:
  assumes "run_from_mount pr evs = Inr s" and "mounted s"
    and "timeout pr' \<noteq> timeout (cur_props s)"
    and "run (Render pr' # evs') s = Inr s'"
  shows "timers s' = [] \<and> unmountedRef s' \<and> on_ticks s' = on_ticks s"
proof -
  note q = reachable_quiescent [OF assms(1)]
  from assms(4) obtain s1 where s1: "step (Render pr') s = Inr s1" "run evs' s1 = Inr s'"
    by (cases "step (Render pr') s") (simp_all add: and_then_def)
  from period_change_clears_interval [OF q assms(2,3) s1(1)] have u1: "unmountedRef s1" by simp
  from run_stopped [OF s1(2) u1] have u: "unmountedRef s'" "on_ticks s' = on_ticks s1" by simp_all
  from run_quiescent [OF step_quiescent [OF q s1(1)] s1(2)] have "quiescent s'" .
  from quiescentD(7) [OF this u(1)] u rendered_on_ticks [OF q assms(2) s1(1)]
  show ?thesis by simp
qed

theorem period_change_stops_the_clock_witness:
  "holds_after (run_from_mount P1000 [Tick, Settle Fulfilled])
     (\<lambda>s. mounted s \<and> timeout (P1000\<lparr>timeout := 2000\<rparr>) \<noteq> timeout (cur_props s) \<and>
        on_ticks s = 1 \<and>
        holds_after (run (Render (P1000\<lparr>timeout := 2000\<rparr>) # replicate 6000 Elapse_ms @ [Tick]) s)
          (\<lambda>s'. timers s' = [] \<and> unmountedRef s' \<and> on_ticks s' = on_ticks s \<and> invocations s' = 1))"
proof -
  let ?p = "P1000\<lparr>timeout := 2000\<rparr>"
  have "holds_after (run_from_mount P1000 [Tick, Settle Fulfilled])
     (\<lambda>s. mounted s \<and> timeout ?p \<noteq> timeout (cur_props s) \<and> on_ticks s = 1 \<and>
        holds_after (step (Render ?p) s)
          (\<lambda>s1. timers s1 = [] \<and> invocations s1 = 1 \<and> run [Tick] s1 = Inr s1))"
    by (simp add: P1000_def ev_simps)
  then obtain s s1 where r: "run_from_mount P1000 [Tick, Settle Fulfilled] = Inr s"
    and s: "mounted s" "timeout ?p \<noteq> timeout (cur_props s)" "on_ticks s = 1"
    and s1: "step (Render ?p) s = Inr s1" "timers s1 = []" "invocations s1 = 1"
      "run [Tick] s1 = Inr s1"
    by (auto elim!: holds_afterE)
  have "run (replicate 6000 Elapse_ms @ [Tick]) s1 = Inr s1"
    using wait_without_timer [OF s1(2), of 6000] s1(4)
    by (simp add: run_append and_then_def del: run.simps)
  with s1(1) have e: "run (Render ?p # replicate 6000 Elapse_ms @ [Tick]) s = Inr s1"
    by (simp add: and_then_def)
  from period_change_stops_the_clock [OF r s(1,2) e] s s1(3) e show ?thesis
    by (intro holds_afterI [OF r]) (simp add: holds_after_def del: run.simps)
qed

text \<open>
  \<^bold>\<open>C3\<close>, as the claim states it, fails.  The hook is mounted paused, one tick arrives,
  and the owner renders again with \<^verbatim>\<open>paused = false\<close>: the task is called, with no new tick.
\<close>

theorem unpausing_runs_the_latched_tick:
  "total_invocations (run_from_mount (P1000\<lparr>paused := True\<rparr>) [Tick, Render P1000]) = Some 1"
  by (simp add: P1000_def ev_simps)

text \<open>
  \<^bold>\<open>C3\<close>, amended.  While the hook is paused and idle, ticks call nothing, but they are
  not discarded: the trigger stays set (however many ticks arrive, it is set once).  When
  the owner renders with \<^verbatim>\<open>paused = false\<close>, the trigger effect runs and calls the task once,
  without a new tick.
\<close>

theorem paused_tick_is_latched:
  assumes "run_from_mount pr evs = Inr s"
    and "paused (cur_props s)" and "in_flight s = 0" and "\<not> unmountedRef s"
    and "\<not> paused pr'" and "callback pr' = Returns_promise"
  shows "run (replicate (Suc n) Tick) s =
      Inr (s\<lparr>intervalTrigger := True, trigger_deps := (True, True),
            on_ticks := Suc (on_ticks s + n)\<rparr>) \<and>
    holds_after (run (replicate (Suc n) Tick @ [Render pr']) s)
      (\<lambda>s'. invocations s' = Suc (invocations s) \<and> in_flight s' = 1 \<and>
         \<not> intervalTrigger s' \<and> on_ticks s' = Suc (on_ticks s + n))"
proof -
  note q = reachable_quiescent [OF assms(1)]
  let ?s1 = "s\<lparr>intervalTrigger := True, trigger_deps := (True, True),
            on_ticks := Suc (on_ticks s + n)\<rparr>"
  have a: "run (replicate (Suc n) Tick) s = Inr ?s1"
    using q assms(2,4) by (rule ticks_while_paused)
  from run_quiescent [OF q a] have q1: "quiescent ?s1" .
  from quiescentD(9) [OF q] assms(4) have m: "mounted ?s1" by simp
  from quiescentD(5) [OF q] assms(3) have rd: "ready ?s1 = Some True" by simp
  have c: "holds_after (step (Render pr') ?s1)
      (\<lambda>s'. invocations s' = Suc (invocations s) \<and> in_flight s' = 1 \<and>
         \<not> intervalTrigger s' \<and> on_ticks s' = Suc (on_ticks s + n))"
    unfolding render_cases [OF q1 m] using assms(3,5,6) rd
    by (simp add: holds_after_def rendered_def)
  from a have "run (replicate (Suc n) Tick @ [Render pr']) s = step (Render pr') ?s1"
    by (rule run_snoc)
  with a c show ?thesis by (simp only:)
qed

theorem paused_tick_is_latched_witness:
  "holds_after (run_from_mount (P1000\<lparr>paused := True\<rparr>) [])
     (\<lambda>s. paused (cur_props s) \<and> in_flight s = 0 \<and> \<not> unmountedRef s \<and> \<not> paused P1000 \<and>
        callback P1000 = Returns_promise \<and> invocations s = 0 \<and>
        run (replicate (Suc 2) Tick) s =
          Inr (s\<lparr>intervalTrigger := True, trigger_deps := (True, True),
                on_ticks := Suc (on_ticks s + 2)\<rparr>) \<and>
        holds_after (run (replicate (Suc 2) Tick @ [Render P1000]) s)
         (\<lambda>s'. invocations s' = Suc (invocations s) \<and> in_flight s' = 1 \<and>
            \<not> intervalTrigger s' \<and> on_ticks s' = Suc (on_ticks s + 2)))"
proof -
  have "holds_after (run_from_mount (P1000\<lparr>paused := True\<rparr>) [])
     (\<lambda>s. paused (cur_props s) \<and> in_flight s = 0 \<and> \<not> unmountedRef s \<and> invocations s = 0)"
    by (simp add: P1000_def ev_simps)
  then obtain s where r: "run_from_mount (P1000\<lparr>paused := True\<rparr>) [] = Inr s"
    and s: "paused (cur_props s)" "in_flight s = 0" "\<not> unmountedRef s" "invocations s = 0"
    by (auto elim: holds_afterE)
  have p: "\<not> paused P1000" "callback P1000 = Returns_promise" by (simp_all add: P1000_def)
  note t = paused_tick_is_latched [OF r s(1-3) p, of 2]
  show ?thesis
    by (rule holds_afterI [OF r]) (use s p t in blast)
qed

text \<open>
  \<^bold>\<open>C4.\<close>  In every state a run from mount reaches, at most one promise of the task is
  pending, and \<open>ready\<close> is true exactly when none is.  The task is called in the trigger
  effect only, and a run of that effect that calls it saw \<open>ready\<close> true and has set it
  false; so no two calls of the task are ever in flight together.
\<close>

theorem at_most_one_in_flight:
  assumes "run_from_mount pr evs = Inr s"
  shows "in_flight s \<le> 1 \<and> ready s = Some (in_flight s = 0) \<and>
    (\<forall>pr' trig rdy t t'.
       trigger_effect pr' trig rdy t = Inr t' \<and> invocations t' \<noteq> invocations t \<longrightarrow>
       rdy = Some True \<and> ready t' = Some False \<and> in_flight t' = Suc (in_flight t))"
  using quiescentD(5,6) [OF reachable_quiescent [OF assms]] trigger_effect_invokes
  by blast

theorem at_most_one_in_flight_witness:
  "holds_after (run_from_mount P1000 [Tick, Tick, Settle Rejected, Tick])
     (\<lambda>s. in_flight s = 1 \<and> invocations s = 2 \<and> in_flight s \<le> 1 \<and>
        ready s = Some (in_flight s = 0))"
proof -
  have "holds_after (run_from_mount P1000 [Tick, Tick, Settle Rejected, Tick])
     (\<lambda>s. in_flight s = 1 \<and> invocations s = 2)"
    by (simp add: P1000_def ev_simps)
  then obtain s where r: "run_from_mount P1000 [Tick, Tick, Settle Rejected, Tick] = Inr s"
    and s: "in_flight s = 1 \<and> invocations s = 2" by (rule holds_afterE)
  from at_most_one_in_flight [OF r] s show ?thesis
    by (intro holds_afterI [OF r]) simp
qed

text \<open>
  \<^bold>\<open>C5.\<close>  After the unmount no event calls the task or the saved callback again,
  whatever the events are: a tick delivered after the unmount changes nothing, the promise
  in flight settles, and the count of invocations stays what it was at the unmount.
\<close>

theorem no_invocation_after_teardown:
  assumes "run_from_mount pr evs = Inr s"
  shows "\<exists>s'. run (Unmount # evs') s = Inr s' \<and> invocations s' = invocations s \<and>
    on_ticks s' = on_ticks s \<and> in_flight s' \<le> in_flight s \<and>
    run [Unmount, Tick] s = run [Unmount] s \<and>
    holds_after (run [Unmount, Settle r] s) (\<lambda>u. in_flight u = 0 \<and> invocations u = invocations s)"
proof -
  note q = reachable_quiescent [OF assms]
  from unmounted_torn_down [OF q] obtain u where
    u: "step Unmount s = Inr u" "\<not> mounted u" "unmountedRef u"
    "invocations u = invocations s" "on_ticks u = on_ticks s" "in_flight u = in_flight s"
    by blast
  from run_torn_down [OF u(2,3), of evs'] obtain s' where
    "run evs' u = Inr s'" "invocations s' = invocations u" "on_ticks s' = on_ticks u"
    "in_flight s' \<le> in_flight u" by blast
  with u have a: "run (Unmount # evs') s = Inr s' \<and> invocations s' = invocations s \<and>
    on_ticks s' = on_ticks s \<and> in_flight s' \<le> in_flight s"
    by (simp add: and_then_def)
  from u have b: "run [Unmount, Tick] s = run [Unmount] s"
    by (simp add: and_then_def tick_torn_down)
  from quiescentD(6) [OF q] u
  have c: "holds_after (run [Unmount, Settle r] s) (\<lambda>u. in_flight u = 0 \<and> invocations u = invocations s)"
    by (cases r) (simp_all add: and_then_def holds_after_def flush_two task_settled_def setReady_def)
  from a b c show ?thesis by blast
qed

theorem no_invocation_after_teardown_witness:
  "holds_after (run_from_mount P1000 [Tick])
     (\<lambda>s. in_flight s = 1 \<and> invocations s = 1 \<and>
       (\<exists>s'. run (Unmount # [Tick, Settle Rejected, Elapse_ms, Render P1000, Tick]) s = Inr s' \<and>
          invocations s' = invocations s \<and> on_ticks s' = on_ticks s \<and>
          in_flight s' \<le> in_flight s \<and>
          run [Unmount, Tick] s = run [Unmount] s \<and>
          holds_after (run [Unmount, Settle Rejected] s)
            (\<lambda>u. in_flight u = 0 \<and> invocations u = invocations s)))"
proof -
  have "holds_after (run_from_mount P1000 [Tick]) (\<lambda>s. in_flight s = 1 \<and> invocations s = 1)"
    by (simp add: P1000_def ev_simps)
  then obtain s where r: "run_from_mount P1000 [Tick] = Inr s"
    and s: "in_flight s = 1" "invocations s = 1"
    by (auto elim: holds_afterE)
  note t = no_invocation_after_teardown [OF r,
      of "[Tick, Settle Rejected, Elapse_ms, Render P1000, Tick]" Rejected]
  show ?thesis
    by (rule holds_afterI [OF r]) (use s t in blast)
qed

text \<open>
  \<^bold>\<open>C6.\<close>  While a promise is pending, its rejection and its fulfilment take the hook to
  the same state: \<open>ready\<close> is true again, nothing is in flight, the count of invocations is
  unchanged and no error comes out; so every later event does after a rejection what it
  does after a fulfilment.
\<close>

theorem rejection_is_swallowed:
  assumes "run_from_mount pr evs = Inr s" "0 < in_flight s"
  shows "step (Settle Rejected) s = Inr (s\<lparr>ready := Some True, in_flight := 0\<rparr>) \<and>
    step (Settle Fulfilled) s = Inr (s\<lparr>ready := Some True, in_flight := 0\<rparr>) \<and>
    run (Settle Rejected # evs') s = run (Settle Fulfilled # evs') s"
  using assms(2) settle_cases [OF reachable_quiescent [OF assms(1)]]
  by (simp add: and_then_def)

theorem rejection_is_swallowed_witness:
  "holds_after (run_from_mount P1000 [Tick])
     (\<lambda>s. 0 < in_flight s \<and>
        step (Settle Rejected) s = Inr (s\<lparr>ready := Some True, in_flight := 0\<rparr>) \<and>
        step (Settle Fulfilled) s = Inr (s\<lparr>ready := Some True, in_flight := 0\<rparr>) \<and>
        total_invocations (run [Settle Rejected, Tick] s) = Some 2 \<and>
        run [Settle Rejected, Tick] s = run [Settle Fulfilled, Tick] s)"
proof -
  have "holds_after (run_from_mount P1000 [Tick])
     (\<lambda>s. 0 < in_flight s \<and> total_invocations (run [Settle Rejected, Tick] s) = Some 2)"
    by (simp add: P1000_def ev_simps)
  then obtain s where r: "run_from_mount P1000 [Tick] = Inr s"
    and s: "0 < in_flight s" "total_invocations (run [Settle Rejected, Tick] s) = Some 2"
    by (auto elim: holds_afterE)
  from rejection_is_swallowed [OF r s(1), of "[Tick]"] s
  show ?thesis
    by (intro holds_afterI [OF r]) simp
qed

text \<open>
  \<^bold>\<open>C7\<close>, as the claim states it, fails.  A period of \<open>2^31\<close> milliseconds is greater
  than 0, and the hook hands it to \<^verbatim>\<open>setInterval\<close> as it is; the platform runs such an
  interval every millisecond.  After 40 milliseconds the saved callback has been called 40
  times, where calls spaced by the period would not have begun.
\<close>

theorem huge_period_ticks_every_ms:
  "total_ticks (run_from_mount (P1000\<lparr>timeout := 2147483648\<rparr>) (replicate 40 Elapse_ms)) = Some 40"
proof -
  have "callback (P1000\<lparr>timeout := 2147483648\<rparr>) = Returns_promise"
    by (simp add: P1000_def)
  moreover have "set (replicate 40 Elapse_ms) \<subseteq> {Elapse_ms, Settle Fulfilled, Settle Rejected}"
    by simp
  ultimately have "holds_after (run_from_mount (P1000\<lparr>timeout := 2147483648\<rparr>) (replicate 40 Elapse_ms))
    (\<lambda>s. on_ticks s = elapsed_ms (replicate 40 Elapse_ms) div delay_of (timeout (P1000\<lparr>timeout := 2147483648\<rparr>)) \<and>
       map snd (timers s) =
         [(delay_of (timeout (P1000\<lparr>timeout := 2147483648\<rparr>)),
           delay_of (timeout (P1000\<lparr>timeout := 2147483648\<rparr>)) -
             elapsed_ms (replicate 40 Elapse_ms) mod delay_of (timeout (P1000\<lparr>timeout := 2147483648\<rparr>)))])"
    by (rule ticks_at_delay)
  then show ?thesis
    by (auto simp: holds_after_def total_ticks_def elapsed_ms_replicate delay_of_def
        TIMEOUT_MAX_def split: sum.splits)
qed

text \<open>
  \<^bold>\<open>C7\<close>, amended.  For every period of a whole number of milliseconds from 1 to
  \<open>2^31 - 1\<close> and a task that returns a promise: after mount, while time passes and
  promises settle, the saved callback has been called \<open>t div timeout pr\<close> times when \<open>t\<close>
  milliseconds have passed.  So there is no call at mount, the first call comes when one
  full period has passed, and one call follows every period after.
\<close>

theorem ticks_every_period:
  assumes "1 \<le> timeout pr" and "timeout pr \<le> TIMEOUT_MAX"
    and "callback pr = Returns_promise"
    and "set evs \<subseteq> {Elapse_ms, Settle Fulfilled, Settle Rejected}"
  shows "holds_after (run_from_mount pr evs)
    (\<lambda>s. on_ticks s = elapsed_ms evs div timeout pr \<and>
       map snd (timers s) = [(timeout pr, timeout pr - elapsed_ms evs mod timeout pr)])"
proof -
  from assms(1,2) have "delay_of (timeout pr) = timeout pr" by (simp add: delay_of_def)
  with ticks_at_delay [OF assms(3,4)] show ?thesis by simp
qed

theorem ticks_every_period_witness:
  "1 \<le> timeout (P1000\<lparr>timeout := 3\<rparr>) \<and> timeout (P1000\<lparr>timeout := 3\<rparr>) \<le> TIMEOUT_MAX \<and>
   callback (P1000\<lparr>timeout := 3\<rparr>) = Returns_promise \<and>
   set [Elapse_ms, Elapse_ms, Elapse_ms, Settle Rejected, Elapse_ms, Elapse_ms, Elapse_ms, Elapse_ms]
     \<subseteq> {Elapse_ms, Settle Fulfilled, Settle Rejected} \<and>
   elapsed_ms [Elapse_ms, Elapse_ms, Elapse_ms, Settle Rejected, Elapse_ms, Elapse_ms, Elapse_ms, Elapse_ms]
     = 7 \<and>
   holds_after (run_from_mount (P1000\<lparr>timeout := 3\<rparr>)
       [Elapse_ms, Elapse_ms, Elapse_ms, Settle Rejected, Elapse_ms, Elapse_ms, Elapse_ms, Elapse_ms])
     (\<lambda>s. on_ticks s = 2 \<and> map snd (timers s) = [(3, 2)]) \<and>
   holds_after (run_from_mount (P1000\<lparr>timeout := 3\<rparr>) [Elapse_ms, Elapse_ms])
     (\<lambda>s. on_ticks s = 0 \<and> invocations s = 0) \<and>
   holds_after (run_from_mount (P1000\<lparr>timeout := 3\<rparr>) [Elapse_ms, Elapse_ms, Elapse_ms])
     (\<lambda>s. on_ticks s = 1 \<and> invocations s = 1)"
proof -
  let ?p = "P1000\<lparr>timeout := 3\<rparr>"
  let ?evs = "[Elapse_ms, Elapse_ms, Elapse_ms, Settle Rejected, Elapse_ms, Elapse_ms, Elapse_ms,
    Elapse_ms]"
  have h: "1 \<le> timeout ?p" "timeout ?p \<le> TIMEOUT_MAX" "callback ?p = Returns_promise"
    "set ?evs \<subseteq> {Elapse_ms, Settle Fulfilled, Settle Rejected}"
    by (simp_all add: P1000_def TIMEOUT_MAX_def)
  have e: "elapsed_ms ?evs = 7" by (simp add: elapsed_ms_def)
  from ticks_every_period [OF h] have
    "holds_after (run_from_mount ?p ?evs) (\<lambda>s. on_ticks s = 2 \<and> map snd (timers s) = [(3, 2)])"
    unfolding e by (simp add: P1000_def)
  moreover have "holds_after (run_from_mount ?p [Elapse_ms, Elapse_ms])
     (\<lambda>s. on_ticks s = 0 \<and> invocations s = 0)"
    by (simp add: P1000_def ev_simps)
  moreover have "holds_after (run_from_mount ?p [Elapse_ms, Elapse_ms, Elapse_ms])
     (\<lambda>s. on_ticks s = 1 \<and> invocations s = 1)"
    by (simp add: P1000_def ev_simps)
  ultimately show ?thesis using h e by blast
qed

text \<open>
  \<^bold>\<open>C8.\<close>  In every state a run from mount reaches, the platform holds at most one
  interval of this hook, and running the timer effect again (with any arguments) creates
  none: it leaves the state as it is.
\<close>

theorem one_live_interval:
  assumes "run_from_mount pr evs = Inr s"
  shows "length (timers s) \<le> 1 \<and> timer_effect pr' s = s"
proof -
  note q = quiescentD [OF reachable_quiescent [OF assms]]
  have "length (map (\<lambda>t. Some (fst t)) (timers s)) \<le> 1"
    unfolding q(8) by simp
  with q(10) show ?thesis by (auto simp: timer_effect_def)
qed

theorem one_live_interval_witness:
  "holds_after (run_from_mount P1000 [Elapse_ms, Render (P1000\<lparr>paused := True\<rparr>), Tick])
     (\<lambda>s. timers s = [(0, 1000, 999)] \<and> length (timers s) \<le> 1 \<and>
        timer_effect (P1000\<lparr>timeout := 5\<rparr>) s = s)"
proof -
  have "holds_after (run_from_mount P1000 [Elapse_ms, Render (P1000\<lparr>paused := True\<rparr>), Tick])
     (\<lambda>s. timers s = [(0, 1000, 999)])"
    by (simp add: P1000_def ev_simps)
  then obtain s where
    r: "run_from_mount P1000 [Elapse_ms, Render (P1000\<lparr>paused := True\<rparr>), Tick] = Inr s"
    and s: "timers s = [(0, 1000, 999)]" by (rule holds_afterE)
  from one_live_interval [OF r, of "P1000\<lparr>timeout := 5\<rparr>"] s show ?thesis
    by (intro holds_afterI [OF r]) simp
qed

text \<open>
  \<^bold>\<open>C9.\<close>  The cleanup is idempotent: run a second time it changes nothing, it
  never calls the task, and on a hook whose interval was never created it only sets
  \<^verbatim>\<open>unmountedRef\<close>.  Unmounting twice is unmounting once.
\<close>

theorem cleanup_idempotent:
  "timer_cleanup (timer_cleanup s) = timer_cleanup s \<and>
   run [Unmount, Unmount] s = run [Unmount] s \<and>
   invocations (timer_cleanup s) = invocations s \<and>
   timer_cleanup (initial pr) = (initial pr)\<lparr>unmountedRef := True\<rparr>"
  by (simp add: timer_cleanup_def clearInterval_def Let_def unmount_def and_then_def initial_def
      split: option.splits)

theorem cleanup_idempotent_witness:
  "holds_after (run_from_mount P1000 [Tick, Render (P1000\<lparr>timeout := 2000\<rparr>)])
     (\<lambda>s. unmountedRef s \<and> timer_cleanup s = s \<and> invocations s = 1 \<and>
        run [Unmount, Unmount] s = run [Unmount] s)"
proof -
  have "holds_after (run_from_mount P1000 [Tick, Render (P1000\<lparr>timeout := 2000\<rparr>)])
     (\<lambda>s. unmountedRef s \<and> timers s = [] \<and> invocations s = 1)"
    by (simp add: P1000_def ev_simps)
  then obtain s where r: "run_from_mount P1000 [Tick, Render (P1000\<lparr>timeout := 2000\<rparr>)] = Inr s"
    and s: "unmountedRef s" "timers s = []" "invocations s = 1"
    by (auto elim: holds_afterE)
  from s(1,2) have "timer_cleanup s = s"
    by (cases s) (simp add: timer_cleanup_def clearInterval_def Let_def split: option.splits)
  with cleanup_idempotent [of s P1000] s show ?thesis
    by (intro holds_afterI [OF r]) simp
qed




end
